theory Spec2Isabelle
  imports Complex_Main "HOL-Library.Multiset"
begin

section \<open>The sub-complex partition of test_oineus.py\<close>

text \<open>
  The script \<^verbatim>\<open>test_oineus.py\<close> holds a list \<^verbatim>\<open>simplices\<close> of entries
  \<^verbatim>\<open>[vertices, weight]\<close> (the vertex list sorted, line 23) and a list \<^verbatim>\<open>sub\<close> of
  Python booleans, one per point (lines 10 to 17). Lines 26 to 63 split the simplices into
  \<^verbatim>\<open>L\<close> and \<^verbatim>\<open>not_L\<close>, concatenate them into \<^verbatim>\<open>K\<close> and number both lists.

  Vertex ids are Python integers; the weight is never inspected, so its type is a parameter.
\<close>

type_synonym 'w simplex = "int list \<times> 'w"

type_synonym 'w entry = "nat \<times> int list \<times> 'w"

datatype error = IndexError

text \<open>
  \<^verbatim>\<open>sub[v]\<close> on a Python list: an index from \<open>0\<close> to \<open>len - 1\<close> reads from the
  front, an index from \<open>-len\<close> to \<open>-1\<close> reads from the back, anything else raises
  \<^verbatim>\<open>IndexError\<close>.
\<close>

definition getitem :: "'a list \<Rightarrow> int \<Rightarrow> error + 'a" where
  "getitem xs i =
     (if 0 \<le> i \<and> i < int (length xs) then Inr (xs ! nat i)
      else if - int (length xs) \<le> i \<and> i < 0 then Inr (xs ! nat (int (length xs) + i))
      else Inl IndexError)"

text \<open>
  Lines 41 to 45: \<^verbatim>\<open>sub_complex = True\<close>, then the loop over the vertices that sets
  \<^verbatim>\<open>sub_complex = False\<close> and breaks at the first vertex with \<^verbatim>\<open>sub[v] == False\<close>.
  The value is the final \<^verbatim>\<open>sub_complex\<close>.
\<close>

fun vertex_loop :: "bool list \<Rightarrow> int list \<Rightarrow> error + bool" where
  "vertex_loop sub [] = Inr True"
| "vertex_loop sub (v # vs) =
     (case getitem sub v of
        Inl e \<Rightarrow> Inl e
      | Inr b \<Rightarrow> if b = False then Inr False else vertex_loop sub vs)"

text \<open>The two lists the loop of lines 31 to 53 appends to.\<close>

record 'w lists =
  L :: "'w simplex list"
  not_L :: "'w simplex list"

text \<open>
  Lines 31 to 53: one pass over \<^verbatim>\<open>simplices\<close>. A simplex with exactly one vertex is
  tested by \<^verbatim>\<open>sub[s[0][0]] == True\<close>; every other simplex by the vertex loop. An
  \<^verbatim>\<open>IndexError\<close> ends the script.
\<close>

fun partition_loop :: "bool list \<Rightarrow> 'w simplex list \<Rightarrow> 'w lists \<Rightarrow> error + 'w lists" where
  "partition_loop sub [] st = Inr st"
| "partition_loop sub (s # rest) st =
     (if length (fst s) = 1 then
        (case getitem sub (fst s ! 0) of
           Inl e \<Rightarrow> Inl e
         | Inr b \<Rightarrow>
             if b = True then partition_loop sub rest (st\<lparr>L := L st @ [(fst s, snd s)]\<rparr>)
             else partition_loop sub rest (st\<lparr>not_L := not_L st @ [(fst s, snd s)]\<rparr>))
      else
        (case vertex_loop sub (fst s) of
           Inl e \<Rightarrow> Inl e
         | Inr sub_complex \<Rightarrow>
             if sub_complex = True then partition_loop sub rest (st\<lparr>L := L st @ [(fst s, snd s)]\<rparr>)
             else partition_loop sub rest (st\<lparr>not_L := not_L st @ [(fst s, snd s)]\<rparr>)))"

text \<open>Lines 55 to 60: \<^verbatim>\<open>K = []\<close>, then every entry of a list is appended to \<^verbatim>\<open>K\<close>.\<close>

definition append_all :: "'a list \<Rightarrow> 'a list \<Rightarrow> 'a list" where
  "append_all K xs = foldl (\<lambda>acc s. acc @ [s]) K xs"

definition concat_K :: "'w lists \<Rightarrow> 'w simplex list" where
  "concat_K st = append_all (append_all [] (L st)) (not_L st)"

text \<open>Lines 62 and 63: \<^verbatim>\<open>[[i, s[0], s[1]] for i, s in enumerate(xs)]\<close>.\<close>

definition assign_ids :: "'w simplex list \<Rightarrow> 'w entry list" where
  "assign_ids xs = map (\<lambda>(i, s). (i, fst s, snd s)) (enumerate 0 xs)"

text \<open>
  The variables of the script after line 63: \<^verbatim>\<open>L\<close> and \<^verbatim>\<open>K\<close> rebound to the
  numbered lists, \<^verbatim>\<open>not_L\<close> as the loop left it.
\<close>

record 'w filtrations =
  L_ids :: "'w entry list"
  not_L_final :: "'w simplex list"
  K_ids :: "'w entry list"

definition build :: "'w simplex list \<Rightarrow> bool list \<Rightarrow> error + 'w filtrations" where
  "build simplices sub =
     (case partition_loop sub simplices \<lparr>L = [], not_L = []\<rparr> of
        Inl e \<Rightarrow> Inl e
      | Inr st \<Rightarrow>
          Inr \<lparr>L_ids = assign_ids (L st), not_L_final = not_L st,
               K_ids = assign_ids (concat_K st)\<rparr>)"

text \<open>The simplex and weight of a numbered entry.\<close>

definition entry_simplex :: "'w entry \<Rightarrow> 'w simplex" where
  "entry_simplex e = (fst (snd e), snd (snd e))"

section \<open>The properties the partition is checked against\<close>

text \<open>
  A vertex satisfies the membership predicate when \<^verbatim>\<open>sub[v]\<close> can be read and is
  \<^verbatim>\<open>True\<close>; a simplex is all-in when each of its vertices does.
\<close>

definition all_vertices_in :: "bool list \<Rightarrow> 'w simplex \<Rightarrow> bool" where
  "all_vertices_in sub s = (\<forall>v \<in> set (fst s). getitem sub v = Inr True)"

text \<open>The vertex ids on which \<^verbatim>\<open>sub[v]\<close> does not raise.\<close>

definition valid_index :: "'a list \<Rightarrow> int \<Rightarrow> bool" where
  "valid_index xs i = (- int (length xs) \<le> i \<and> i < int (length xs))"

text \<open>
  The loop of lines 31 to 53 with the branch of lines 32 to 39 taken out: every simplex,
  whatever its number of vertices, goes through the vertex loop of lines 41 to 53.
\<close>

fun general_loop :: "bool list \<Rightarrow> 'w simplex list \<Rightarrow> 'w lists \<Rightarrow> error + 'w lists" where
  "general_loop sub [] st = Inr st"
| "general_loop sub (s # rest) st =
     (case vertex_loop sub (fst s) of
        Inl e \<Rightarrow> Inl e
      | Inr sub_complex \<Rightarrow>
          if sub_complex = True then general_loop sub rest (st\<lparr>L := L st @ [(fst s, snd s)]\<rparr>)
          else general_loop sub rest (st\<lparr>not_L := not_L st @ [(fst s, snd s)]\<rparr>))"

text \<open>
  The faces of a simplex are the non-empty proper subsets of its vertex set. A sequence of
  simplices satisfies the closure invariant when every face of every entry is the vertex
  set of an entry at a smaller position.
\<close>

definition proper_faces :: "int list \<Rightarrow> int set set" where
  "proper_faces vs = Pow (set vs) - {{}, set vs}"

definition closure_invariant :: "'w simplex list \<Rightarrow> bool" where
  "closure_invariant xs =
     (\<forall>i \<in> set [0..<length xs]. \<forall>F \<in> proper_faces (fst (xs ! i)).
        \<exists>j \<in> set [0..<i]. set (fst (xs ! j)) = F)"

text \<open>
  The same check as one pass that carries the vertex sets seen so far; used to evaluate
  the invariant and to reason about sub-sequences.
\<close>

fun closed_from :: "int set set \<Rightarrow> 'w simplex list \<Rightarrow> bool" where
  "closed_from seen [] = True"
| "closed_from seen (s # rest) =
     (proper_faces (fst s) \<subseteq> seen \<and> closed_from (insert (set (fst s)) seen) rest)"

text \<open>
  The runs of the script as a relation between the inputs and the outcome, one rule per
  path through the loop body of lines 31 to 53.
\<close>

inductive partition_run ::
  "bool list \<Rightarrow> 'w simplex list \<Rightarrow> 'w lists \<Rightarrow> error + 'w lists \<Rightarrow> bool"
  for sub :: "bool list" where
  finished: "partition_run sub [] st (Inr st)"
| single_raises:
    "length (fst s) = 1 \<Longrightarrow> getitem sub (fst s ! 0) = Inl e \<Longrightarrow>
     partition_run sub (s # rest) st (Inl e)"
| single_in:
    "length (fst s) = 1 \<Longrightarrow> getitem sub (fst s ! 0) = Inr True \<Longrightarrow>
     partition_run sub rest (st\<lparr>L := L st @ [(fst s, snd s)]\<rparr>) r \<Longrightarrow>
     partition_run sub (s # rest) st r"
| single_out:
    "length (fst s) = 1 \<Longrightarrow> getitem sub (fst s ! 0) = Inr False \<Longrightarrow>
     partition_run sub rest (st\<lparr>not_L := not_L st @ [(fst s, snd s)]\<rparr>) r \<Longrightarrow>
     partition_run sub (s # rest) st r"
| general_raises:
    "length (fst s) \<noteq> 1 \<Longrightarrow> vertex_loop sub (fst s) = Inl e \<Longrightarrow>
     partition_run sub (s # rest) st (Inl e)"
| general_in:
    "length (fst s) \<noteq> 1 \<Longrightarrow> vertex_loop sub (fst s) = Inr True \<Longrightarrow>
     partition_run sub rest (st\<lparr>L := L st @ [(fst s, snd s)]\<rparr>) r \<Longrightarrow>
     partition_run sub (s # rest) st r"
| general_out:
    "length (fst s) \<noteq> 1 \<Longrightarrow> vertex_loop sub (fst s) = Inr False \<Longrightarrow>
     partition_run sub rest (st\<lparr>not_L := not_L st @ [(fst s, snd s)]\<rparr>) r \<Longrightarrow>
     partition_run sub (s # rest) st r"

inductive script_run :: "'w simplex list \<Rightarrow> bool list \<Rightarrow> error + 'w filtrations \<Rightarrow> bool" where
  raised:
    "partition_run sub simplices \<lparr>L = [], not_L = []\<rparr> (Inl e) \<Longrightarrow>
     script_run simplices sub (Inl e)"
| completed:
    "partition_run sub simplices \<lparr>L = [], not_L = []\<rparr> (Inr st) \<Longrightarrow>
     script_run simplices sub
       (Inr \<lparr>L_ids = assign_ids (L st), not_L_final = not_L st,
             K_ids = assign_ids (concat_K st)\<rparr>)"

text \<open>
  A simplex on which the script raises: reading its vertices in order, a vertex id that is
  no index of \<^verbatim>\<open>sub\<close> comes before any vertex whose \<^verbatim>\<open>sub\<close> value is \<^verbatim>\<open>False\<close>.
\<close>

definition raises_on :: "bool list \<Rightarrow> 'w simplex \<Rightarrow> bool" where
  "raises_on sub s = (\<exists>pre v post. fst s = pre @ v # post \<and>
      (\<forall>u \<in> set pre. getitem sub u = Inr True) \<and> \<not> valid_index sub v)"

section \<open>The loops\<close>

lemma getitem_valid: "(\<exists>b. getitem xs i = Inr b) \<longleftrightarrow> valid_index xs i"
  by (auto simp: getitem_def valid_index_def)

lemma getitem_raises: "getitem xs i = Inl e \<longleftrightarrow> \<not> valid_index xs i"
  by (cases e) (auto simp: getitem_def valid_index_def)

lemma vertex_loop_Inr:
  "vertex_loop sub vs = Inr b \<Longrightarrow> b = (\<forall>v \<in> set vs. getitem sub v = Inr True)"
  by (induction vs) (auto split: sum.splits if_splits)

lemma vertex_loop_single:
  "vertex_loop sub [v] = (case getitem sub v of Inl e \<Rightarrow> Inl e | Inr b \<Rightarrow> Inr (b = True))"
  by (simp split: sum.splits)

lemma single_vertex_list: "length vs = 1 \<Longrightarrow> vs = [vs ! 0]"
  by (cases vs) auto

lemma partition_loop_eq_general: "partition_loop sub ss st = general_loop sub ss st"
proof (induction ss arbitrary: st)
  case Nil
  show ?case by simp
next
  case (Cons s rest)
  show ?case
  proof (cases "length (fst s) = 1")
    case True
    then have "fst s = [fst s ! 0]" by (rule single_vertex_list)
    then have "vertex_loop sub (fst s) =
        (case getitem sub (fst s ! 0) of Inl e \<Rightarrow> Inl e | Inr b \<Rightarrow> Inr (b = True))"
      using vertex_loop_single[of sub "fst s ! 0"] by simp
    with True Cons.IH show ?thesis
      by (simp split: sum.splits)
  next
    case False
    with Cons.IH show ?thesis by (simp split: sum.splits)
  qed
qed

lemma general_loop_Inr:
  "general_loop sub ss st = Inr st' \<Longrightarrow>
     L st' = L st @ filter (all_vertices_in sub) ss \<and>
     not_L st' = not_L st @ filter (\<lambda>s. \<not> all_vertices_in sub s) ss"
proof (induction ss arbitrary: st)
  case Nil
  then show ?case by simp
next
  case (Cons s rest)
  from Cons.prems obtain b where b: "vertex_loop sub (fst s) = Inr b"
    by (auto split: sum.splits)
  then have bv: "b = all_vertices_in sub s"
    unfolding all_vertices_in_def by (rule vertex_loop_Inr)
  show ?case
  proof (cases b)
    case True
    with Cons.prems b have "general_loop sub rest (st\<lparr>L := L st @ [s]\<rparr>) = Inr st'" by simp
    from Cons.IH[OF this] True bv show ?thesis by simp
  next
    case False
    with Cons.prems b have "general_loop sub rest (st\<lparr>not_L := not_L st @ [s]\<rparr>) = Inr st'" by simp
    from Cons.IH[OF this] False bv show ?thesis by simp
  qed
qed

lemma partition_loop_Inr:
  assumes "partition_loop sub ss \<lparr>L = [], not_L = []\<rparr> = Inr st"
  shows "st = \<lparr>L = filter (all_vertices_in sub) ss,
               not_L = filter (\<lambda>s. \<not> all_vertices_in sub s) ss\<rparr>"
  using general_loop_Inr[of sub ss "\<lparr>L = [], not_L = []\<rparr>" st] assms
  by (simp add: partition_loop_eq_general)

lemma vertex_loop_reaches_error:
  "(\<forall>u \<in> set pre. getitem sub u = Inr True) \<Longrightarrow> getitem sub v = Inl e \<Longrightarrow>
     vertex_loop sub (pre @ v # post) = Inl e"
  by (induction pre) auto

lemma vertex_loop_error_reached:
  "vertex_loop sub vs = Inl e \<Longrightarrow>
     \<exists>pre v post. vs = pre @ v # post \<and> (\<forall>u \<in> set pre. getitem sub u = Inr True) \<and>
        getitem sub v = Inl e"
proof (induction vs)
  case Nil
  then show ?case by simp
next
  case (Cons a vs)
  show ?case
  proof (cases "getitem sub a")
    case (Inl e')
    with Cons.prems have "getitem sub a = Inl e" by simp
    then have "a # vs = [] @ a # vs \<and> (\<forall>u \<in> set []. getitem sub u = Inr True) \<and>
        getitem sub a = Inl e" by simp
    then show ?thesis by blast
  next
    case (Inr b)
    with Cons.prems have b: "b" and "vertex_loop sub vs = Inl e"
      by (auto split: if_splits)
    from Cons.IH[OF this(2)] obtain pre v post where
      "vs = pre @ v # post" "\<forall>u \<in> set pre. getitem sub u = Inr True" "getitem sub v = Inl e"
      by blast
    with Inr b have "a # vs = (a # pre) @ v # post \<and>
        (\<forall>u \<in> set (a # pre). getitem sub u = Inr True) \<and> getitem sub v = Inl e"
      by simp
    then show ?thesis by blast
  qed
qed

lemma vertex_loop_Inl: "vertex_loop sub (fst s) = Inl e \<longleftrightarrow> raises_on sub s"
  unfolding raises_on_def
  using vertex_loop_reaches_error[of _ sub _ e] vertex_loop_error_reached[of sub "fst s" e]
  by (metis getitem_raises)

lemma general_loop_Inl:
  "general_loop sub ss st = Inl e \<longleftrightarrow> (\<exists>s \<in> set ss. raises_on sub s)"
proof (induction ss arbitrary: st)
  case Nil
  show ?case by simp
next
  case (Cons s rest)
  show ?case
  proof (cases "vertex_loop sub (fst s)")
    case (Inl e')
    then have "raises_on sub s" using vertex_loop_Inl by blast
    with Inl show ?thesis by (cases e; cases e') simp
  next
    case (Inr b)
    then have "\<not> raises_on sub s" using vertex_loop_Inl[of sub s] by simp
    with Inr Cons.IH show ?thesis by simp
  qed
qed

lemma append_all_eq: "append_all K xs = K @ xs"
  unfolding append_all_def by (induction xs arbitrary: K) auto

lemma concat_K_eq: "concat_K st = L st @ not_L st"
  by (simp add: concat_K_def append_all_eq)

lemma length_assign_ids: "length (assign_ids xs) = length xs"
  by (simp add: assign_ids_def)

lemma nth_assign_ids: "i < length xs \<Longrightarrow> assign_ids xs ! i = (i, fst (xs ! i), snd (xs ! i))"
  by (simp add: assign_ids_def nth_enumerate_eq)

lemma entry_simplex_assign_ids: "map entry_simplex (assign_ids xs) = xs"
  by (rule nth_equalityI) (simp_all add: length_assign_ids nth_assign_ids entry_simplex_def)

lemma map_fst_assign_ids: "map fst (assign_ids xs) = [0..<length xs]"
  by (rule nth_equalityI) (simp_all add: length_assign_ids nth_assign_ids)

lemma take_assign_ids: "take n (assign_ids xs) = assign_ids (take n xs)"
  by (rule nth_equalityI) (simp_all add: length_assign_ids nth_assign_ids)

lemma build_Inr:
  assumes "build simplices sub = Inr r"
  shows "r = \<lparr>L_ids = assign_ids (filter (all_vertices_in sub) simplices),
              not_L_final = filter (\<lambda>s. \<not> all_vertices_in sub s) simplices,
              K_ids = assign_ids (filter (all_vertices_in sub) simplices @
                        filter (\<lambda>s. \<not> all_vertices_in sub s) simplices)\<rparr>"
proof -
  from assms obtain st where st: "partition_loop sub simplices \<lparr>L = [], not_L = []\<rparr> = Inr st"
    and r: "r = \<lparr>L_ids = assign_ids (L st), not_L_final = not_L st,
                 K_ids = assign_ids (concat_K st)\<rparr>"
    by (auto simp: build_def split: sum.splits)
  from partition_loop_Inr[OF st] r show ?thesis
    by (simp add: concat_K_eq)
qed

lemma build_Inl: "build simplices sub = Inl e \<longleftrightarrow> (\<exists>s \<in> set simplices. raises_on sub s)"
  using general_loop_Inl[of sub simplices "\<lparr>L = [], not_L = []\<rparr>" e]
  by (auto simp: build_def partition_loop_eq_general split: sum.splits)

section \<open>The closure invariant under the partition\<close>

lemma closed_from_iff:
  "closed_from seen xs \<longleftrightarrow>
     (\<forall>i < length xs. \<forall>F \<in> proper_faces (fst (xs ! i)).
        F \<in> seen \<or> (\<exists>j < i. set (fst (xs ! j)) = F))"
proof (induction xs arbitrary: seen)
  case Nil
  show ?case by simp
next
  case (Cons s rest)
  show ?case
    by (simp add: Cons.IH All_less_Suc2 Ex_less_Suc2 subset_iff) blast
qed

lemma closure_invariant_closed_from: "closure_invariant xs \<longleftrightarrow> closed_from {} xs"
  by (simp add: closure_invariant_def closed_from_iff Bex_def Ball_def)

lemma closed_from_append:
  "closed_from seen (xs @ ys) \<longleftrightarrow>
     closed_from seen xs \<and> closed_from (seen \<union> (\<lambda>s. set (fst s)) ` set xs) ys"
  by (induction xs arbitrary: seen) (auto simp: insert_commute Un_insert_left[symmetric] simp del: Un_insert_left)

lemma proper_face_all_in:
  "all_vertices_in sub s \<Longrightarrow> F \<in> proper_faces (fst s) \<Longrightarrow> set (fst t) = F \<Longrightarrow>
     all_vertices_in sub t"
  by (auto simp: all_vertices_in_def proper_faces_def)

lemma closed_from_filter_all_in:
  "closed_from seen xs \<Longrightarrow>
   (\<And>t. set (fst t) \<in> seen \<Longrightarrow> all_vertices_in sub (t::'w simplex) \<Longrightarrow> set (fst t) \<in> seen') \<Longrightarrow>
   (\<And>F. F \<in> seen \<Longrightarrow> \<exists>t::'w simplex. set (fst t) = F) \<Longrightarrow>
   closed_from seen' (filter (all_vertices_in sub) (xs::'w simplex list))"
proof (induction xs arbitrary: seen seen')
  case Nil
  show ?case by simp
next
  case (Cons s rest)
  have rest: "closed_from (insert (set (fst s)) seen) rest"
    and faces: "proper_faces (fst s) \<subseteq> seen"
    using Cons.prems(1) by simp_all
  have reps: "\<And>F. F \<in> insert (set (fst s)) seen \<Longrightarrow> \<exists>t::'w simplex. set (fst t) = F"
    using Cons.prems(3) by auto
  show ?case
  proof (cases "all_vertices_in sub s")
    case True
    have "proper_faces (fst s) \<subseteq> seen'"
    proof
      fix F assume F: "F \<in> proper_faces (fst s)"
      with faces have "F \<in> seen" by blast
      then obtain t :: "'w simplex" where t: "set (fst t) = F" using Cons.prems(3) by blast
      from proper_face_all_in[OF True F t] have "all_vertices_in sub t" .
      with Cons.prems(2)[of t] t \<open>F \<in> seen\<close> show "F \<in> seen'" by simp
    qed
    moreover have "closed_from (insert (set (fst s)) seen') (filter (all_vertices_in sub) rest)"
      by (rule Cons.IH[OF rest _ reps]) (use Cons.prems(2) in auto)
    ultimately show ?thesis using True by simp
  next
    case False
    have "closed_from seen' (filter (all_vertices_in sub) rest)"
    proof (rule Cons.IH[OF rest _ reps])
      fix t :: "'w simplex"
      assume "set (fst t) \<in> insert (set (fst s)) seen" "all_vertices_in sub t"
      with False Cons.prems(2)[of t] show "set (fst t) \<in> seen'"
        by (auto simp: all_vertices_in_def)
    qed
    with False show ?thesis by simp
  qed
qed

lemma closed_from_filter_rest:
  "closed_from seen xs \<Longrightarrow> seen \<subseteq> seen' \<Longrightarrow>
   (\<lambda>s. set (fst s)) ` set (filter P xs) \<subseteq> seen' \<Longrightarrow>
   closed_from seen' (filter (\<lambda>s. \<not> P s) xs)"
proof (induction xs arbitrary: seen seen')
  case Nil
  show ?case by simp
next
  case (Cons s rest)
  have rest: "closed_from (insert (set (fst s)) seen) rest"
    and faces: "proper_faces (fst s) \<subseteq> seen"
    using Cons.prems(1) by simp_all
  show ?case
  proof (cases "P s")
    case True
    have "closed_from seen' (filter (\<lambda>s. \<not> P s) rest)"
      by (rule Cons.IH[OF rest]) (use True Cons.prems in auto)
    with True show ?thesis by simp
  next
    case False
    have "closed_from (insert (set (fst s)) seen') (filter (\<lambda>s. \<not> P s) rest)"
      by (rule Cons.IH[OF rest]) (use False Cons.prems in auto)
    with False faces Cons.prems(2) show ?thesis by auto
  qed
qed

lemma closure_invariant_L:
  assumes "closure_invariant xs"
  shows "closure_invariant (filter (all_vertices_in sub) xs)"
  unfolding closure_invariant_closed_from
  by (rule closed_from_filter_all_in[of "{}"]) (use assms in \<open>simp_all add: closure_invariant_closed_from\<close>)

lemma closure_invariant_K:
  assumes "closure_invariant xs"
  shows "closure_invariant (filter (all_vertices_in sub) xs @
           filter (\<lambda>s. \<not> all_vertices_in sub s) xs)"
proof -
  have "closed_from {} xs" using assms by (simp add: closure_invariant_closed_from)
  then have "closed_from ((\<lambda>s. set (fst s)) ` set (filter (all_vertices_in sub) xs))
               (filter (\<lambda>s. \<not> all_vertices_in sub s) xs)"
    by (rule closed_from_filter_rest) simp_all
  with closure_invariant_L[OF assms, of sub] show ?thesis
    by (simp add: closure_invariant_closed_from closed_from_append)
qed

section \<open>Runs of the script\<close>

lemma partition_run_sound: "partition_run sub ss st r \<Longrightarrow> r = partition_loop sub ss st"
  by (induction rule: partition_run.induct) simp_all

lemma partition_run_complete: "partition_run sub ss st (partition_loop sub ss st)"
proof (induction ss arbitrary: st)
  case Nil
  show ?case by (simp add: partition_run.finished)
next
  case (Cons s rest)
  show ?case
  proof (cases "length (fst s) = 1")
    case True
    show ?thesis
    proof (cases "getitem sub (fst s ! 0)")
      case (Inl e)
      with True show ?thesis by (simp add: partition_run.single_raises)
    next
      case (Inr b)
      with True Cons.IH show ?thesis
        by (cases b) (simp_all add: partition_run.single_in partition_run.single_out)
    qed
  next
    case False
    show ?thesis
    proof (cases "vertex_loop sub (fst s)")
      case (Inl e)
      with False show ?thesis by (simp add: partition_run.general_raises)
    next
      case (Inr b)
      with False Cons.IH show ?thesis
        by (cases b) (simp_all add: partition_run.general_in partition_run.general_out)
    qed
  qed
qed

lemma script_run_sound: "script_run simplices sub r \<Longrightarrow> r = build simplices sub"
  by (induction rule: script_run.induct) (auto simp: build_def dest: partition_run_sound[symmetric])

lemma script_run_complete: "script_run simplices sub (build simplices sub)"
proof (cases "partition_loop sub simplices \<lparr>L = [], not_L = []\<rparr>")
  case (Inl e)
  with partition_run_complete[of sub simplices "\<lparr>L = [], not_L = []\<rparr>"]
  show ?thesis by (simp add: build_def script_run.raised)
next
  case (Inr st)
  with partition_run_complete[of sub simplices "\<lparr>L = [], not_L = []\<rparr>"]
  show ?thesis by (simp add: build_def script_run.completed)
qed

section \<open>Shared facts about the build\<close>

lemma build_Inr_fields:
  assumes "build simplices sub = Inr r"
  shows "L_ids r = assign_ids (filter (all_vertices_in sub) simplices)"
    and "not_L_final r = filter (\<lambda>s. \<not> all_vertices_in sub s) simplices"
    and "K_ids r = assign_ids (filter (all_vertices_in sub) simplices @
                     filter (\<lambda>s. \<not> all_vertices_in sub s) simplices)"
  by (subst build_Inr[OF assms], simp)+

text \<open>A small filtration on the vertices 0, 1, 2 with vertex 2 outside the sub-complex.\<close>

lemma scenario_build:
  "build [([0], 0), ([1], 0), ([2], 0), ([0, 1], 1 / 10), ([0, 2], 2 / 10 :: real)]
         [True, True, False] =
   Inr \<lparr>L_ids = [(0, [0], 0), (1, [1], 0), (2, [0, 1], 1 / 10)],
        not_L_final = [([2], 0), ([0, 2], 2 / 10)],
        K_ids = [(0, [0], 0), (1, [1], 0), (2, [0, 1], 1 / 10), (3, [2], 0),
                 (4, [0, 2], 2 / 10)]\<rparr>"
  by (simp add: build_def getitem_def concat_K_def append_all_def assign_ids_def enumerate_eq_zip upt_rec)

lemma scenario_closed:
  "closure_invariant [([0], 0), ([1], 0), ([2], 0), ([0, 1], 1 / 10), ([0, 2], 2 / 10 :: real)]"
  by (auto simp add: closure_invariant_closed_from proper_faces_def Pow_insert)

lemma build_succeeds:
  assumes "\<forall>s \<in> set simplices. \<forall>v \<in> set (fst s). valid_index sub v"
  shows "\<exists>r. build simplices sub = Inr r"
proof (cases "build simplices sub")
  case (Inl e)
  then obtain s where "s \<in> set simplices" "raises_on sub s" using build_Inl by blast
  with assms have False by (auto simp: raises_on_def)
  then show ?thesis ..
next
  case (Inr r)
  then show ?thesis by blast
qed

lemma all_vertices_in_single: "all_vertices_in sub ([v], w) \<longleftrightarrow> getitem sub v = Inr True"
  by (simp add: all_vertices_in_def)

lemma getitem_Inr_valid: "getitem xs i = Inr b \<Longrightarrow> valid_index xs i"
  by (simp add: getitem_def valid_index_def split: if_splits)

lemma assign_ids_Nil: "assign_ids [] = []"
  by (simp add: assign_ids_def)

lemma build_all_in:
  assumes "\<forall>s \<in> set simplices. \<forall>v \<in> set (fst s). getitem sub v = Inr True"
  shows "\<exists>r. build simplices sub = Inr r \<and> map entry_simplex (L_ids r) = simplices \<and>
           not_L_final r = [] \<and> map entry_simplex (K_ids r) = simplices"
proof -
  have "\<forall>s \<in> set simplices. \<forall>v \<in> set (fst s). valid_index sub v"
    using assms getitem_Inr_valid by fastforce
  then obtain r where r: "build simplices sub = Inr r" using build_succeeds by blast
  have all: "\<And>s. s \<in> set simplices \<Longrightarrow> all_vertices_in sub s"
    using assms by (simp add: all_vertices_in_def)
  then have Ls: "filter (all_vertices_in sub) simplices = simplices"
    by (simp add: filter_id_conv)
  from all have Ns: "filter (\<lambda>s. \<not> all_vertices_in sub s) simplices = []"
    by (simp add: filter_empty_conv)
  have "map entry_simplex (L_ids r) = simplices"
    unfolding build_Inr_fields(1)[OF r] Ls by (rule entry_simplex_assign_ids)
  moreover have "not_L_final r = []"
    unfolding build_Inr_fields(2)[OF r] Ns ..
  moreover have "map entry_simplex (K_ids r) = simplices"
    unfolding build_Inr_fields(3)[OF r] Ls Ns append_Nil2 by (rule entry_simplex_assign_ids)
  ultimately show ?thesis using r by blast
qed

lemma build_all_out:
  assumes "\<forall>s \<in> set simplices. fst s \<noteq> [] \<and> (\<forall>v \<in> set (fst s). getitem sub v = Inr False)"
  shows "\<exists>r. build simplices sub = Inr r \<and> L_ids r = [] \<and> not_L_final r = simplices \<and>
           map entry_simplex (K_ids r) = simplices"
proof -
  have "\<forall>s \<in> set simplices. \<forall>v \<in> set (fst s). valid_index sub v"
    using assms getitem_Inr_valid by fastforce
  then obtain r where r: "build simplices sub = Inr r" using build_succeeds by blast
  have none: "\<not> all_vertices_in sub s" if "s \<in> set simplices" for s
  proof -
    from that assms have ne: "fst s \<noteq> []"
      and out: "\<forall>v \<in> set (fst s). getitem sub v = Inr False"
      by simp_all
    from ne obtain v where v: "v \<in> set (fst s)" by (cases "fst s") auto
    with out have f: "getitem sub v = Inr False" by simp
    show ?thesis
    proof
      assume "all_vertices_in sub s"
      with v have "getitem sub v = Inr True" by (simp add: all_vertices_in_def)
      with f show False by simp
    qed
  qed
  then have Ls: "filter (all_vertices_in sub) simplices = []"
    by (simp add: filter_empty_conv)
  from none have Ns: "filter (\<lambda>s. \<not> all_vertices_in sub s) simplices = simplices"
    by (simp add: filter_id_conv)
  have "L_ids r = []"
    unfolding build_Inr_fields(1)[OF r] Ls by (rule assign_ids_Nil)
  moreover have "not_L_final r = simplices"
    unfolding build_Inr_fields(2)[OF r] Ns ..
  moreover have "map entry_simplex (K_ids r) = simplices"
    unfolding build_Inr_fields(3)[OF r] Ls Ns append_Nil by (rule entry_simplex_assign_ids)
  ultimately show ?thesis using r by blast
qed

lemma build_empty:
  "build [] sub = Inr \<lparr>L_ids = [], not_L_final = [], K_ids = []\<rparr>"
  by (simp add: build_def concat_K_def append_all_def assign_ids_def)

lemma all_in_build:
  "build [([0], 0), ([1], 0), ([0, 1], 1 / 10 :: real)] [True, True] =
     Inr \<lparr>L_ids = [(0, [0], 0), (1, [1], 0), (2, [0, 1], 1 / 10)], not_L_final = [],
          K_ids = [(0, [0], 0), (1, [1], 0), (2, [0, 1], 1 / 10)]\<rparr>"
  by (simp add: build_def getitem_def concat_K_def append_all_def assign_ids_def enumerate_eq_zip upt_rec)

lemma all_out_build:
  "build [([0], 0), ([1], 0), ([0, 1], 1 / 10 :: real)] [False, False] =
     Inr \<lparr>L_ids = [], not_L_final = [([0], 0), ([1], 0), ([0, 1], 1 / 10)],
          K_ids = [(0, [0], 0), (1, [1], 0), (2, [0, 1], 1 / 10)]\<rparr>"
  by (simp add: build_def getitem_def concat_K_def append_all_def assign_ids_def enumerate_eq_zip upt_rec)







section \<open>The claims\<close>

text \<open>
  Claim C1. Whenever the script completes, \<^verbatim>\<open>L\<close> holds exactly the simplices all of whose
  vertices satisfy the predicate and \<^verbatim>\<open>not_L\<close> exactly the others, both in the order of
  the input; a simplex with the single vertex \<open>v\<close> is in \<^verbatim>\<open>L\<close> exactly when
  \<^verbatim>\<open>sub[v]\<close> is \<^verbatim>\<open>True\<close>. The script completes whenever every vertex id is an index
  of \<^verbatim>\<open>sub\<close>.
\<close>

theorem L_iff_all_vertices_in:
  "(build simplices sub = Inr r \<longrightarrow>
      map entry_simplex (L_ids r) = filter (all_vertices_in sub) simplices \<and>
      not_L_final r = filter (\<lambda>s. \<not> all_vertices_in sub s) simplices \<and>
      (\<forall>v w. ([v], w) \<in> set simplices \<longrightarrow>
         (([v], w) \<in> set (map entry_simplex (L_ids r)) \<longleftrightarrow> getitem sub v = Inr True) \<and>
         (([v], w) \<in> set (not_L_final r) \<longleftrightarrow> getitem sub v \<noteq> Inr True))) \<and>
   ((\<forall>s \<in> set simplices. \<forall>v \<in> set (fst s). valid_index sub v) \<longrightarrow>
      (\<exists>r. build simplices sub = Inr r))"
proof (intro conjI impI)
  assume ok: "build simplices sub = Inr r"
  note r = build_Inr[OF ok]
  show L: "map entry_simplex (L_ids r) = filter (all_vertices_in sub) simplices"
    by (subst r) (simp add: entry_simplex_assign_ids)
  show N: "not_L_final r = filter (\<lambda>s. \<not> all_vertices_in sub s) simplices"
    by (subst r) simp
  show "\<forall>v w. ([v], w) \<in> set simplices \<longrightarrow>
         (([v], w) \<in> set (map entry_simplex (L_ids r)) \<longleftrightarrow> getitem sub v = Inr True) \<and>
         (([v], w) \<in> set (not_L_final r) \<longleftrightarrow> getitem sub v \<noteq> Inr True)"
    unfolding L N by (simp add: all_vertices_in_single)
next
  assume "\<forall>s \<in> set simplices. \<forall>v \<in> set (fst s). valid_index sub v"
  then show "\<exists>r. build simplices sub = Inr r" by (rule build_succeeds)
qed

theorem L_iff_all_vertices_in_witness:
  "build [([0], 0), ([1], 0), ([2], 0), ([0, 1], 1 / 10), ([0, 2], 2 / 10 :: real)]
         [True, True, False] =
   Inr \<lparr>L_ids = [(0, [0], 0), (1, [1], 0), (2, [0, 1], 1 / 10)],
        not_L_final = [([2], 0), ([0, 2], 2 / 10)],
        K_ids = [(0, [0], 0), (1, [1], 0), (2, [0, 1], 1 / 10), (3, [2], 0),
                 (4, [0, 2], 2 / 10)]\<rparr> \<and>
   filter (all_vertices_in [True, True, False])
     [([0], 0), ([1], 0), ([2], 0), ([0, 1], 1 / 10), ([0, 2], 2 / 10 :: real)] =
   [([0], 0), ([1], 0), ([0, 1], 1 / 10)] \<and>
   filter (\<lambda>s. \<not> all_vertices_in [True, True, False] s)
     [([0], 0), ([1], 0), ([2], 0), ([0, 1], 1 / 10), ([0, 2], 2 / 10 :: real)] =
   [([2], 0), ([0, 2], 2 / 10)] \<and>
   getitem [True, True, False] 0 = Inr True \<and> getitem [True, True, False] 2 \<noteq> Inr True \<and>
   valid_index [True, True, False] 0 \<and> valid_index [True, True, False] 1 \<and>
   valid_index [True, True, False] 2"
  using L_iff_all_vertices_in[of
      "[([0], 0), ([1], 0), ([2], 0), ([0, 1], 1 / 10), ([0, 2], 2 / 10 :: real)]"
      "[True, True, False]"
      "\<lparr>L_ids = [(0, [0], 0), (1, [1], 0), (2, [0, 1], 1 / 10)],
        not_L_final = [([2], 0), ([0, 2], 2 / 10)],
        K_ids = [(0, [0], 0), (1, [1], 0), (2, [0, 1], 1 / 10), (3, [2], 0),
                 (4, [0, 2], 2 / 10)]\<rparr>"]
    scenario_build
  by (simp add: entry_simplex_def getitem_def valid_index_def)

text \<open>
  Claim C2. When the input sequence satisfies the closure invariant, so does \<^verbatim>\<open>L\<close>:
  every face of every simplex of \<^verbatim>\<open>L\<close> is an earlier entry of \<^verbatim>\<open>L\<close>.
\<close>

theorem L_closure_invariant:
  assumes "closure_invariant simplices" and "build simplices sub = Inr r"
  shows "closure_invariant (map entry_simplex (L_ids r))"
  by (subst build_Inr[OF assms(2)]) (simp add: entry_simplex_assign_ids closure_invariant_L[OF assms(1)])

theorem L_closure_invariant_witness:
  "closure_invariant [([0], 0), ([1], 0), ([2], 0), ([0, 1], 1 / 10), ([0, 2], 2 / 10 :: real)] \<and>
   closure_invariant [([0], 0), ([1], 0), ([0, 1], 1 / 10 :: real)]"
  using L_closure_invariant[OF scenario_closed scenario_build] scenario_closed
  by (simp add: entry_simplex_def)

text \<open>
  Claim C4. When the input sequence satisfies the closure invariant, so does the re-ordered
  sequence \<^verbatim>\<open>K\<close>, that is \<^verbatim>\<open>L\<close> followed by \<^verbatim>\<open>not_L\<close>.
\<close>

theorem K_closure_invariant:
  assumes "closure_invariant simplices" and "build simplices sub = Inr r"
  shows "closure_invariant (map entry_simplex (K_ids r))"
  by (subst build_Inr[OF assms(2)]) (simp add: entry_simplex_assign_ids closure_invariant_K[OF assms(1)])

theorem K_closure_invariant_witness:
  "closure_invariant [([0], 0), ([1], 0), ([2], 0), ([0, 1], 1 / 10), ([0, 2], 2 / 10 :: real)] \<and>
   closure_invariant [([0], 0), ([1], 0), ([0, 1], 1 / 10), ([2], 0), ([0, 2], 2 / 10 :: real)]"
  using K_closure_invariant[OF scenario_closed scenario_build] scenario_closed
  by (simp add: entry_simplex_def)

text \<open>
  Claim C3. The simplices of \<^verbatim>\<open>K\<close> are those of \<^verbatim>\<open>L\<close> followed by those of
  \<^verbatim>\<open>not_L\<close>; \<^verbatim>\<open>L\<close> and \<^verbatim>\<open>not_L\<close> are the input filtered by the all-in test and by
  its negation, so each keeps the relative order of the input; and the first
  \<open>|L|\<close> numbered entries of \<^verbatim>\<open>K\<close> are the numbered entries of \<^verbatim>\<open>L\<close>.
\<close>

theorem K_is_L_then_not_L:
  assumes "build simplices sub = Inr r"
  shows "map entry_simplex (K_ids r) = map entry_simplex (L_ids r) @ not_L_final r \<and>
         map entry_simplex (L_ids r) = filter (all_vertices_in sub) simplices \<and>
         not_L_final r = filter (\<lambda>s. \<not> all_vertices_in sub s) simplices \<and>
         take (length (L_ids r)) (K_ids r) = L_ids r"
  by (simp add: build_Inr_fields[OF assms] entry_simplex_assign_ids take_assign_ids
        length_assign_ids)

theorem K_is_L_then_not_L_witness:
  "map entry_simplex [(0, [0], 0), (1, [1], 0), (2, [0, 1], 1 / 10), (3, [2], 0),
                      (4, [0, 2], 2 / 10 :: real)] =
     map entry_simplex [(0, [0], 0), (1, [1], 0), (2, [0, 1], 1 / 10)] @
       [([2], 0), ([0, 2], 2 / 10)] \<and>
   take 3 [(0::nat, [0::int], 0), (1, [1], 0), (2, [0, 1], 1 / 10), (3, [2], 0),
           (4, [0, 2], 2 / 10 :: real)] =
     [(0, [0], 0), (1, [1], 0), (2, [0, 1], 1 / 10)]"
  using K_is_L_then_not_L[OF scenario_build]
  by simp

text \<open>
  Claim C5. The lengths of \<^verbatim>\<open>L\<close> and \<^verbatim>\<open>not_L\<close> add up to the length of the input;
  together they hold every input simplex with its multiplicity (nothing omitted, nothing
  added), no simplex is in both, and when the input has no repeated entry neither has
  \<^verbatim>\<open>L\<close> followed by \<^verbatim>\<open>not_L\<close>.
\<close>

theorem exact_partition:
  assumes "build simplices sub = Inr r"
  shows "length (L_ids r) + length (not_L_final r) = length simplices \<and>
         mset (map entry_simplex (L_ids r)) + mset (not_L_final r) = mset simplices \<and>
         set (map entry_simplex (L_ids r)) \<inter> set (not_L_final r) = {} \<and>
         set (map entry_simplex (L_ids r)) \<union> set (not_L_final r) = set simplices \<and>
         (distinct simplices \<longrightarrow> distinct (map entry_simplex (L_ids r) @ not_L_final r))"
proof -
  let ?P = "all_vertices_in sub"
  have Lr: "map entry_simplex (L_ids r) = filter ?P simplices"
    by (subst build_Inr[OF assms]) (simp add: entry_simplex_assign_ids)
  have Nr: "not_L_final r = filter (\<lambda>s. \<not> ?P s) simplices"
    by (subst build_Inr[OF assms]) simp
  have "length (map entry_simplex (L_ids r)) + length (not_L_final r) = length simplices"
    unfolding Lr Nr by (rule sum_length_filter_compl)
  then have len: "length (L_ids r) + length (not_L_final r) = length simplices" by simp
  have ms: "mset (map entry_simplex (L_ids r)) + mset (not_L_final r) = mset simplices"
    unfolding Lr Nr by simp
  have disj: "set (map entry_simplex (L_ids r)) \<inter> set (not_L_final r) = {}"
    unfolding Lr Nr by auto
  have un: "set (map entry_simplex (L_ids r)) \<union> set (not_L_final r) = set simplices"
    unfolding Lr Nr by auto
  have "distinct (map entry_simplex (L_ids r) @ not_L_final r)" if "distinct simplices"
    unfolding Lr Nr using that by auto
  with len ms disj un show ?thesis by blast
qed

theorem exact_partition_witness:
  "length [(0::nat, [0::int], 0), (1, [1], 0), (2, [0, 1], 1 / 10 :: real)] +
     length [([2::int], 0), ([0, 2], 2 / 10 :: real)] =
   length [([0::int], 0), ([1], 0), ([2], 0), ([0, 1], 1 / 10), ([0, 2], 2 / 10 :: real)] \<and>
   distinct [([0::int], 0), ([1], 0), ([2], 0), ([0, 1], 1 / 10), ([0, 2], 2 / 10 :: real)] \<and>
   distinct (map entry_simplex [(0, [0], 0), (1, [1], 0), (2, [0, 1], 1 / 10)] @
       [([2], 0), ([0, 2], 2 / 10 :: real)])"
  using exact_partition[OF scenario_build]
  by simp

text \<open>
  Claim C6. Entry \<open>i\<close> of the numbered \<^verbatim>\<open>L\<close> is the id \<open>i\<close> with the vertex list
  and the weight of the \<open>i\<close>-th all-in simplex of the input, entry \<open>i\<close> of the numbered
  \<^verbatim>\<open>K\<close> is the id \<open>i\<close> with the \<open>i\<close>-th simplex of \<^verbatim>\<open>L\<close> followed by
  \<^verbatim>\<open>not_L\<close>, and every returned entry carries a simplex of the input with its own weight.
\<close>

theorem ids_by_position:
  assumes "build simplices sub = Inr r"
  shows "length (L_ids r) = length (filter (all_vertices_in sub) simplices) \<and>
         (\<forall>i < length (L_ids r).
            L_ids r ! i = (i, filter (all_vertices_in sub) simplices ! i)) \<and>
         length (K_ids r) = length simplices \<and>
         (\<forall>i < length (K_ids r).
            K_ids r ! i = (i, (filter (all_vertices_in sub) simplices @
                               filter (\<lambda>s. \<not> all_vertices_in sub s) simplices) ! i)) \<and>
         (\<forall>e \<in> set (L_ids r) \<union> set (K_ids r). entry_simplex e \<in> set simplices)"
proof -
  let ?Ls = "filter (all_vertices_in sub) simplices"
  let ?Ns = "filter (\<lambda>s. \<not> all_vertices_in sub s) simplices"
  have Lr: "L_ids r = assign_ids ?Ls" and Kr: "K_ids r = assign_ids (?Ls @ ?Ns)"
    by (subst build_Inr[OF assms], simp)+
  have "length (?Ls @ ?Ns) = length simplices"
    using sum_length_filter_compl[of "all_vertices_in sub" simplices] by simp
  then have lenK: "length (K_ids r) = length simplices"
    unfolding Kr by (simp only: length_assign_ids)
  have "entry_simplex e \<in> set simplices" if "e \<in> set (L_ids r) \<union> set (K_ids r)" for e
  proof -
    from that have "entry_simplex e \<in> set (map entry_simplex (L_ids r)) \<union>
        set (map entry_simplex (K_ids r))" by auto
    then show ?thesis unfolding Lr Kr entry_simplex_assign_ids by auto
  qed
  with lenK show ?thesis
    unfolding Lr Kr by (simp add: length_assign_ids nth_assign_ids)
qed

theorem ids_by_position_witness:
  "[(0, [0], 0), (1, [1], 0), (2, [0, 1], 1 / 10 :: real)] ! 2 =
     (2, filter (all_vertices_in [True, True, False])
          [([0], 0), ([1], 0), ([2], 0), ([0, 1], 1 / 10), ([0, 2], 2 / 10)] ! 2) \<and>
   [(0, [0], 0), (1, [1], 0), (2, [0, 1], 1 / 10), (3, [2], 0), (4, [0, 2], 2 / 10 :: real)] ! 3 =
     (3, [2], 0) \<and>
   entry_simplex (4, [0, 2], 2 / 10 :: real) \<in>
     set [([0], 0), ([1], 0), ([2], 0), ([0, 1], 1 / 10), ([0, 2], 2 / 10)]"
  using ids_by_position[OF scenario_build]
  by (simp add: entry_simplex_def all_vertices_in_def getitem_def)



text \<open>
  Claim C8. On the empty input the script completes with \<^verbatim>\<open>L\<close>, \<^verbatim>\<open>not_L\<close> and
  \<^verbatim>\<open>K\<close> empty. When every vertex of every simplex satisfies the predicate, \<^verbatim>\<open>L\<close> is
  the input in its order and \<^verbatim>\<open>not_L\<close> is empty. When no vertex of any simplex
  satisfies it, \<^verbatim>\<open>L\<close> is empty and \<^verbatim>\<open>K\<close> is the input in its order; here every
  simplex has at least one vertex, as a simplex of dimension 0 or more does.
\<close>

theorem boundary_cases:
  "build [] sub = Inr \<lparr>L_ids = [], not_L_final = [], K_ids = []\<rparr> \<and>
   ((\<forall>s \<in> set simplices. \<forall>v \<in> set (fst s). getitem sub v = Inr True) \<longrightarrow>
      (\<exists>r. build simplices sub = Inr r \<and> map entry_simplex (L_ids r) = simplices \<and>
           not_L_final r = [] \<and> map entry_simplex (K_ids r) = simplices)) \<and>
   ((\<forall>s \<in> set simplices. fst s \<noteq> [] \<and> (\<forall>v \<in> set (fst s). getitem sub v = Inr False)) \<longrightarrow>
      (\<exists>r. build simplices sub = Inr r \<and> L_ids r = [] \<and> not_L_final r = simplices \<and>
           map entry_simplex (K_ids r) = simplices))"
  using build_empty build_all_in build_all_out by blast

theorem boundary_cases_witness:
  "getitem [True, True] 0 = Inr True \<and> getitem [True, True] 1 = Inr True \<and>
   getitem [False, False] 0 = Inr False \<and> getitem [False, False] 1 = Inr False \<and>
   build [([0], 0), ([1], 0), ([0, 1], 1 / 10 :: real)] [True, True] =
     Inr \<lparr>L_ids = [(0, [0], 0), (1, [1], 0), (2, [0, 1], 1 / 10)], not_L_final = [],
          K_ids = [(0, [0], 0), (1, [1], 0), (2, [0, 1], 1 / 10)]\<rparr> \<and>
   build [([0], 0), ([1], 0), ([0, 1], 1 / 10 :: real)] [False, False] =
     Inr \<lparr>L_ids = [], not_L_final = [([0], 0), ([1], 0), ([0, 1], 1 / 10)],
          K_ids = [(0, [0], 0), (1, [1], 0), (2, [0, 1], 1 / 10)]\<rparr>"
  using boundary_cases[of "[True, True]" "[([0], 0), ([1], 0), ([0, 1], 1 / 10 :: real)]"]
    boundary_cases[of "[False, False]" "[([0], 0), ([1], 0), ([0, 1], 1 / 10 :: real)]"]
    all_in_build all_out_build
  by (simp add: getitem_def)

text \<open>
  Claim C9. Every run of the script on given simplices and a given \<^verbatim>\<open>sub\<close> has an
  outcome, and any two runs on the same inputs have the same outcome: the same numbered
  \<^verbatim>\<open>L\<close>, the same numbered \<^verbatim>\<open>K\<close> and the same \<^verbatim>\<open>not_L\<close>.
\<close>

theorem runs_deterministic:
  "(\<exists>r. script_run simplices sub r) \<and>
   (\<forall>r1 r2. script_run simplices sub r1 \<longrightarrow> script_run simplices sub r2 \<longrightarrow>
      r1 = r2 \<and>
      (\<forall>a b. r1 = Inr a \<longrightarrow> r2 = Inr b \<longrightarrow>
         L_ids a = L_ids b \<and> K_ids a = K_ids b \<and> not_L_final a = not_L_final b))"
proof (intro conjI allI impI)
  show "\<exists>r. script_run simplices sub r" using script_run_complete by blast
next
  fix r1 r2 assume "script_run simplices sub r1" "script_run simplices sub r2"
  then show eq: "r1 = r2" using script_run_sound by blast
  fix a b assume "r1 = Inr a" "r2 = Inr b"
  with eq have "a = b" by simp
  then show "L_ids a = L_ids b" "K_ids a = K_ids b" "not_L_final a = not_L_final b"
    by simp_all
qed

theorem runs_deterministic_witness:
  "script_run [([0], 0), ([1], 0), ([2], 0), ([0, 1], 1 / 10), ([0, 2], 2 / 10 :: real)]
     [True, True, False]
     (Inr \<lparr>L_ids = [(0, [0], 0), (1, [1], 0), (2, [0, 1], 1 / 10)],
           not_L_final = [([2], 0), ([0, 2], 2 / 10)],
           K_ids = [(0, [0], 0), (1, [1], 0), (2, [0, 1], 1 / 10), (3, [2], 0),
                    (4, [0, 2], 2 / 10)]\<rparr>)"
  using runs_deterministic[of
      "[([0], 0), ([1], 0), ([2], 0), ([0, 1], 1 / 10), ([0, 2], 2 / 10 :: real)]"
      "[True, True, False]"]
    script_run_complete[of
      "[([0], 0), ([1], 0), ([2], 0), ([0, 1], 1 / 10), ([0, 2], 2 / 10 :: real)]"
      "[True, True, False]"]
    scenario_build
  by simp

text \<open>
  Claim C10. The loop with its separate single-vertex branch computes, from any state, the
  same outcome as the loop that sends every simplex through the vertex loop; on a single
  vertex the test \<^verbatim>\<open>sub[v] == True\<close> and the vertex loop agree, errors included.
\<close>

theorem branches_equivalent:
  "partition_loop sub simplices st = general_loop sub simplices st \<and>
   (case getitem sub v of Inl e \<Rightarrow> Inl e | Inr b \<Rightarrow> Inr (b = True)) = vertex_loop sub [v]"
  by (simp add: partition_loop_eq_general split: sum.splits)

theorem branches_equivalent_witness:
  "partition_loop [True, False] [([1], 0 :: real), ([0], 0)] \<lparr>L = [], not_L = []\<rparr> =
     Inr \<lparr>L = [([0], 0)], not_L = [([1], 0)]\<rparr> \<and>
   general_loop [True, False] [([1], 0 :: real), ([0], 0)] \<lparr>L = [], not_L = []\<rparr> =
     Inr \<lparr>L = [([0], 0)], not_L = [([1], 0)]\<rparr>"
  using branches_equivalent[of "[True, False]" "[([1], 0 :: real), ([0], 0)]"
      "\<lparr>L = [], not_L = []\<rparr>" 0]
  by (simp add: getitem_def)

end
